theory Spec2Isabelle
  imports Complex_Main
begin

section \<open>The blocking demonstration script, as functions of HOL\<close>

text \<open>
  The script \<^verbatim>\<open>assets/js/blocking.js\<close> is a flat sequence of functions, one per
  anti-pattern, started once by a dispatch on \<^verbatim>\<open>document.readyState\<close>. Each function
  is translated below as it is written: a loop is a recursive function with its
  termination proof, an exception is the left summand of a result, the page (the DOM,
  the timers, the listeners, the console, the globals of \<^verbatim>\<open>window\<close>) is a record that
  every routine takes and returns, and what the script reads from outside
  (\<^verbatim>\<open>Math.random\<close>, \<^verbatim>\<open>Date.now\<close>, the network, the regex engine) is a parameter.
\<close>

subsection \<open>Numbers and strings of the script\<close>

text \<open>
  Integral JavaScript numbers are modelled as \<^typ>\<open>int\<close>: every integer the script
  computes with stays far below \<open>2^53\<close>, where doubles are exact. The remainder
  operator \<^verbatim>\<open>%\<close> truncates towards zero (the sign follows the dividend); the script
  only divides by numbers that are at least 2.
\<close>

definition js_rem :: "int \<Rightarrow> int \<Rightarrow> int" where
  "js_rem a b = sgn a * (\<bar>a\<bar> mod \<bar>b\<bar>)"

text \<open>
  A number that need not be integral (a record's \<^verbatim>\<open>value\<close>) is a double: a finite
  number, an infinity or NaN. Comparison with NaN is false. Doubling a finite double is
  exact unless it overflows, which gives an infinity; the largest finite double is
  \<open>(2^53 - 1) * 2^971\<close>. The literal \<^verbatim>\<open>0.1\<close> denotes the double nearest to one tenth,
  \<open>3602879701896397 / 2^55\<close>; \<^verbatim>\<open>0.5\<close> and \<^verbatim>\<open>2\<close> are exact.
\<close>

datatype js_number = Num real | PosInfinity | NegInfinity | NaN

definition MAX_VALUE :: real where
  "MAX_VALUE = (2 ^ 53 - 1) * 2 ^ 971"

definition double_0_1 :: real where
  "double_0_1 = 3602879701896397 / 2 ^ 55"

fun js_gt :: "js_number \<Rightarrow> js_number \<Rightarrow> bool" where
  "js_gt NaN _ = False"
| "js_gt _ NaN = False"
| "js_gt (Num a) (Num b) = (b < a)"
| "js_gt PosInfinity PosInfinity = False"
| "js_gt PosInfinity _ = True"
| "js_gt _ PosInfinity = False"
| "js_gt NegInfinity _ = False"
| "js_gt (Num a) NegInfinity = True"

text \<open>\<^verbatim>\<open>v * 2\<close> (and \<^verbatim>\<open>2 * v\<close>: the multiplication of doubles commutes).\<close>

fun times2 :: "js_number \<Rightarrow> js_number" where
  "times2 (Num a) =
     (if MAX_VALUE < a * 2 then PosInfinity
      else if a * 2 < - MAX_VALUE then NegInfinity
      else Num (a * 2))"
| "times2 PosInfinity = PosInfinity"
| "times2 NegInfinity = NegInfinity"
| "times2 NaN = NaN"

text \<open>
  Strings are ASCII here: the script builds its names from a fixed word and a decimal
  number. \<^verbatim>\<open>toUpperCase\<close> maps the letters a to z to A to Z and keeps every other
  character.
\<close>

definition upper_char :: "char \<Rightarrow> char" where
  "upper_char c =
     (case map_of (zip ''abcdefghijklmnopqrstuvwxyz'' ''ABCDEFGHIJKLMNOPQRSTUVWXYZ'') c of
        Some u \<Rightarrow> u
      | None \<Rightarrow> c)"

definition toUpperCase :: "string \<Rightarrow> string" where
  "toUpperCase s = map upper_char s"

text \<open>The decimal text of a natural number, as a template literal prints it.\<close>

fun string_of_nat :: "nat \<Rightarrow> string" where
  "string_of_nat n =
     (if n < 10 then [''0123456789'' ! n]
      else string_of_nat (n div 10) @ [''0123456789'' ! (n mod 10)])"

declare string_of_nat.simps [simp del]

subsection \<open>The busy-wait timer (lines 4 to 9)\<close>

text \<open>
  \<^verbatim>\<open>Date.now()\<close> is read once before the loop and once per test of the loop's
  condition. The clock is the sequence of these readings: \<open>clock k\<close> is what the
  \<open>k\<close>-th call returns, in milliseconds. The loop may run forever (a clock that stands
  still), so it is a partial function: \<open>None\<close> is not returning. It returns the index of
  the reading at which the condition failed.
\<close>

partial_function (option) sleep_loop :: "(nat \<Rightarrow> int) \<Rightarrow> int \<Rightarrow> int \<Rightarrow> nat \<Rightarrow> nat option" where
  "sleep_loop clock start ms k =
     (if clock k - start < ms then sleep_loop clock start ms (Suc k) else Some k)"

definition sleep :: "(nat \<Rightarrow> int) \<Rightarrow> int \<Rightarrow> nat option" where
  "sleep clock ms = (let start = clock 0 in sleep_loop clock start ms 1)"

subsection \<open>The heavy calculations (lines 177 to 210)\<close>

function isPrime_loop :: "int \<Rightarrow> int \<Rightarrow> bool" where
  "isPrime_loop n i =
     (if i < n then (if js_rem n i = 0 then False else isPrime_loop n (i + 1)) else True)"
  by pat_completeness auto
termination
  by (relation "measure (\<lambda>(n, i). nat (n - i))") auto

declare isPrime_loop.simps [simp del]

definition isPrime :: "int \<Rightarrow> bool" where
  "isPrime n = (if n < 2 then False else isPrime_loop n 2)"

function primes_loop :: "int \<Rightarrow> int list \<Rightarrow> int list" where
  "primes_loop i ps =
     (if i < 10000 then primes_loop (i + 1) (if isPrime i then ps @ [i] else ps) else ps)"
  by pat_completeness auto
termination
  by (relation "measure (\<lambda>(i, ps). nat (10000 - i))") auto

declare primes_loop.simps [simp del]

function fibonacci :: "int \<Rightarrow> int" where
  "fibonacci n = (if n \<le> 1 then n else fibonacci (n - 1) + fibonacci (n - 2))"
  by pat_completeness auto
termination
  by (relation "measure nat") auto

declare fibonacci.simps [simp del]

text \<open>
  The number of activations of \<^verbatim>\<open>fibonacci\<close> that a call starts, itself included: the
  same recursion, counting calls instead of adding results.
\<close>

function fibonacci_calls :: "int \<Rightarrow> nat" where
  "fibonacci_calls n =
     (if n \<le> 1 then 1 else 1 + fibonacci_calls (n - 1) + fibonacci_calls (n - 2))"
  by pat_completeness auto
termination
  by (relation "measure nat") auto

declare fibonacci_calls.simps [simp del]

function fibResults_loop :: "int \<Rightarrow> int list \<Rightarrow> int list" where
  "fibResults_loop i fs =
     (if i < 35 then fibResults_loop (i + 1) (fs @ [fibonacci i]) else fs)"
  by pat_completeness auto
termination
  by (relation "measure (\<lambda>(i, fs). nat (35 - i))") auto

declare fibResults_loop.simps [simp del]

text \<open>The two lists the routine builds (it logs their lengths).\<close>

definition primes :: "int list" where
  "primes = primes_loop 2 []"

definition fibResults :: "int list" where
  "fibResults = fibResults_loop 0 []"

subsection \<open>The bulk record processor (lines 141 to 174)\<close>

text \<open>
  A synthesized record \<^verbatim>\<open>{id, name, value, data}\<close>. The two transforming passes copy a
  record and add a field (\<^verbatim>\<open>{...item, processed: true}\<close>, then \<^verbatim>\<open>doubled\<close>), which is a
  record extension. The fields carry the prefix \<open>item_\<close>, since \<open>id\<close> names the identity
  function here.
\<close>

record item =
  item_id :: int
  item_name :: string
  item_value :: js_number
  item_data :: "js_number list"

record processed_item = item +
  processed :: bool

record doubled_item = processed_item +
  doubled :: js_number

text \<open>
  \<^verbatim>\<open>Array.from({length: 10000}, (_, i) => ...)\<close>: the callback runs for \<open>i\<close> from 0 to
  9999 in order and draws 101 random numbers per record, the value first. \<open>rnd k\<close> is
  the \<open>k\<close>-th number \<^verbatim>\<open>Math.random\<close> returns to this routine.
\<close>

definition synthesize :: "(nat \<Rightarrow> real) \<Rightarrow> nat \<Rightarrow> item" where
  "synthesize rnd i =
     \<lparr>item_id = int i,
      item_name = ''Item '' @ string_of_nat i,
      item_value = Num (rnd (101 * i)),
      item_data = map (\<lambda>k. Num (rnd (101 * i + 1 + k))) [0..<100]\<rparr>"

definition largeArray :: "(nat \<Rightarrow> real) \<Rightarrow> item list" where
  "largeArray rnd = map (synthesize rnd) [0..<10000]"

text \<open>The six passes, each on the list the pass before it returned.\<close>

definition pass1 :: "item list \<Rightarrow> item list" where
  "pass1 xs = filter (\<lambda>item. js_gt (item_value item) (Num double_0_1)) xs"

definition pass2 :: "item list \<Rightarrow> processed_item list" where
  "pass2 xs =
     map (\<lambda>item. \<lparr>item_id = item_id item, item_name = item_name item,
                  item_value = item_value item, item_data = item_data item,
                  processed = True\<rparr>) xs"

definition pass3 :: "processed_item list \<Rightarrow> processed_item list" where
  "pass3 xs = filter (\<lambda>item. js_rem (item_id item) 2 = 0) xs"

definition pass4 :: "processed_item list \<Rightarrow> doubled_item list" where
  "pass4 xs =
     map (\<lambda>item. \<lparr>item_id = item_id item, item_name = item_name item,
                  item_value = item_value item, item_data = item_data item,
                  processed = processed item,
                  doubled = times2 (item_value item)\<rparr>) xs"

definition pass5 :: "doubled_item list \<Rightarrow> doubled_item list" where
  "pass5 xs = filter (\<lambda>item. js_gt (doubled item) (Num 0.5)) xs"

definition pass6 :: "doubled_item list \<Rightarrow> string list" where
  "pass6 xs = map (\<lambda>item. toUpperCase (item_name item)) xs"

definition pipeline :: "item list \<Rightarrow> string list" where
  "pipeline xs = pass6 (pass5 (pass4 (pass3 (pass2 (pass1 xs)))))"

text \<open>The chain as it would read with its first pass taken out.\<close>

definition pipeline_without_first_filter :: "item list \<Rightarrow> string list" where
  "pipeline_without_first_filter xs = pass6 (pass5 (pass4 (pass3 (pass2 xs))))"

text \<open>
  The single composed pass, as the specification words it: keep the records with
  \<open>value > 0.1\<close>, an even \<open>id\<close> and \<open>2 * value > 0.5\<close>, and give their uppercased names
  in order.
\<close>

definition composed_pass :: "item list \<Rightarrow> string list" where
  "composed_pass xs =
     map (\<lambda>r. toUpperCase (item_name r))
       (filter (\<lambda>r. js_gt (item_value r) (Num double_0_1) \<and> even (item_id r) \<and>
                    js_gt (times2 (item_value r)) (Num 0.5)) xs)"

text \<open>The nested counting loops; the test \<^verbatim>\<open>i === j\<close> guards an empty block.\<close>

function comparisons_inner :: "int \<Rightarrow> int \<Rightarrow> int \<Rightarrow> int" where
  "comparisons_inner i j c =
     (if j < 1000 then comparisons_inner i (j + 1) (c + 1) else c)"
  by pat_completeness auto
termination
  by (relation "measure (\<lambda>(i, j, c). nat (1000 - j))") auto

declare comparisons_inner.simps [simp del]

function comparisons_outer :: "int \<Rightarrow> int \<Rightarrow> int" where
  "comparisons_outer i c =
     (if i < 1000 then comparisons_outer (i + 1) (comparisons_inner i 0 c) else c)"
  by pat_completeness auto
termination
  by (relation "measure (\<lambda>(i, c). nat (1000 - i))") auto

declare comparisons_outer.simps [simp del]

text \<open>What the routine computes: the processed names and the comparison counter.\<close>

definition result :: "(nat \<Rightarrow> real) \<Rightarrow> string list" where
  "result rnd = pipeline (largeArray rnd)"

definition comparisons :: int where
  "comparisons = comparisons_outer 0 0"

subsection \<open>The page\<close>

text \<open>
  A DOM node or function object is known by its identity, a number; \<open>next_object\<close> is the
  first identity not yet given out. \<open>body\<close> lists the children of \<^verbatim>\<open>document.body\<close> in
  order and is \<open>None\<close> when the document has no body (\<^verbatim>\<open>document.body\<close> is null), and
  \<open>outside_body\<close> lists the document's other elements. \<open>mutations\<close> records every
  attachment to and removal from the body, as a mutation observer would, and
  \<open>forced_layouts\<close> counts the reads of \<^verbatim>\<open>offsetHeight\<close>. \<open>memoryLeaks\<close> is the global
  \<^verbatim>\<open>window.memoryLeaks\<close>, \<open>None\<close> while it is undefined.
\<close>

type_synonym node = nat

datatype ready_state = Loading | Interactive | Complete

datatype js_error = TypeError | NotFoundError

datatype dom_mutation = Attached node | Detached node

datatype timer_callback = AnimationTick | MemoryLeakTick

datatype listener = StartAllBadPractices node | LeakHandler node

datatype closure = Closure "node list"

text \<open>
  The \<^verbatim>\<open>div\<close> of the DOM churn. Its colour and its two offsets are texts printed from
  doubles; the element keeps what they are printed from: the index and the two random
  draws.
\<close>

record div_element =
  innerHTML :: string
  style_width :: string
  style_height :: string
  style_hue_index :: nat
  style_position :: string
  style_top_draw :: real
  style_left_draw :: real

record page =
  readyState :: ready_state
  body :: "node list option"
  outside_body :: "node list"
  next_object :: nat
  created :: "node \<Rightarrow> div_element option"
  forced_layouts :: nat
  mutations :: "dom_mutation list"
  listeners :: "(string \<times> listener) list"
  intervals :: "(timer_callback \<times> nat) list"
  memoryLeaks :: "closure list option"
  console :: "string list"
  random_draws :: nat

text \<open>
  What the script reads from outside the page: the numbers \<^verbatim>\<open>Math.random\<close> returns, in
  the order of the calls; the message of the error the pathological regex raises, if the
  engine raises one; and the outcome of each blocking request.
\<close>

datatype response = Status nat | Failed string

record outside =
  math_random :: "nat \<Rightarrow> real"
  regex_error :: "string option"
  response1 :: response
  response2 :: response

definition console_log :: "string \<Rightarrow> page \<Rightarrow> page" where
  "console_log line st = st\<lparr>console := console st @ [line]\<rparr>"

definition createElement :: "page \<Rightarrow> node \<times> page" where
  "createElement st = (next_object st, st\<lparr>next_object := Suc (next_object st)\<rparr>)"

text \<open>
  \<^verbatim>\<open>document.body.appendChild(n)\<close> raises a TypeError when the body is null; otherwise it
  takes the node out of the list, if it is there, and puts it last.
  \<^verbatim>\<open>document.body.removeChild(n)\<close> raises NotFoundError when the node is not a child.
\<close>

definition appendChild :: "node \<Rightarrow> page \<Rightarrow> js_error + page" where
  "appendChild n st =
     (case body st of
        None \<Rightarrow> Inl TypeError
      | Some cs \<Rightarrow>
          Inr (st\<lparr>body := Some (removeAll n cs @ [n]),
                  mutations := mutations st @ [Attached n]\<rparr>))"

definition removeChild :: "node \<Rightarrow> page \<Rightarrow> js_error + page" where
  "removeChild n st =
     (case body st of
        None \<Rightarrow> Inl TypeError
      | Some cs \<Rightarrow>
          if n \<in> set cs
          then Inr (st\<lparr>body := Some (remove1 n cs),
                       mutations := mutations st @ [Detached n]\<rparr>)
          else Inl NotFoundError)"

definition offsetHeight :: "page \<Rightarrow> page" where
  "offsetHeight st = st\<lparr>forced_layouts := Suc (forced_layouts st)\<rparr>"

text \<open>A listener already registered for the event type is not registered again.\<close>

definition addEventListener :: "string \<Rightarrow> listener \<Rightarrow> page \<Rightarrow> page" where
  "addEventListener ty l st =
     (if (ty, l) \<in> set (listeners st) then st
      else st\<lparr>listeners := listeners st @ [(ty, l)]\<rparr>)"

definition setInterval :: "timer_callback \<Rightarrow> nat \<Rightarrow> page \<Rightarrow> page" where
  "setInterval cb ms st = st\<lparr>intervals := intervals st @ [(cb, ms)]\<rparr>"

definition querySelectorAll_star :: "page \<Rightarrow> node list" where
  "querySelectorAll_star st =
     outside_body st @ (case body st of None \<Rightarrow> [] | Some cs \<Rightarrow> cs)"

subsection \<open>The DOM churn generator (lines 23 to 46)\<close>

text \<open>
  One round of the loop: create the \<^verbatim>\<open>div\<close>, set its content and style (two calls of
  \<^verbatim>\<open>Math.random\<close>, for the top offset and then the left one), attach it to the body,
  read its \<^verbatim>\<open>offsetHeight\<close>, detach it.
\<close>

definition dom_round :: "outside \<Rightarrow> nat \<Rightarrow> page \<Rightarrow> js_error + page" where
  "dom_round env i st =
     (case createElement st of
        (d, st1) \<Rightarrow>
          let top_draw = math_random env (random_draws st1);
              left_draw = math_random env (Suc (random_draws st1));
              el = \<lparr>innerHTML = ''<p>Dynamic content '' @ string_of_nat i @ ''</p>'',
                    style_width = string_of_nat i @ ''px'',
                    style_height = string_of_nat i @ ''px'',
                    style_hue_index = i,
                    style_position = ''absolute'',
                    style_top_draw = top_draw,
                    style_left_draw = left_draw\<rparr>;
              st2 = st1\<lparr>created := (created st1)(d \<mapsto> el),
                         random_draws := random_draws st1 + 2\<rparr>
          in case appendChild d st2 of
               Inl e \<Rightarrow> Inl e
             | Inr st3 \<Rightarrow> removeChild d (offsetHeight st3))"

function dom_loop :: "outside \<Rightarrow> nat \<Rightarrow> page \<Rightarrow> js_error + page" where
  "dom_loop env i st =
     (if i < 100
      then (case dom_round env i st of
              Inl e \<Rightarrow> Inl e
            | Inr st' \<Rightarrow> dom_loop env (Suc i) st')
      else Inr st)"
  by pat_completeness auto
termination
  by (relation "measure (\<lambda>(env, i, st). 100 - i)") auto

declare dom_loop.simps [simp del]

definition inefficientDOMManipulation :: "outside \<Rightarrow> page \<Rightarrow> js_error + page" where
  "inefficientDOMManipulation env st =
     (case dom_loop env 0 (console_log ''Starting inefficient DOM manipulation'' st) of
        Inl e \<Rightarrow> Inl e
      | Inr st' \<Rightarrow> Inr (console_log ''Finished inefficient DOM manipulation'' st'))"

subsection \<open>The timers (lines 49 to 90)\<close>

text \<open>
  \<^verbatim>\<open>badAnimation\<close> and \<^verbatim>\<open>setupMemoryLeaks\<close> only register a repeating timer; the event
  loop runs the callbacks later. The callback of the leak timer makes a new handler
  function, registers it for three events of the document, queries all elements, and
  pushes a closure over them onto \<^verbatim>\<open>window.memoryLeaks\<close>, which it first sets to
  \<^verbatim>\<open>window.memoryLeaks || []\<close>.
\<close>

definition badAnimation :: "page \<Rightarrow> page" where
  "badAnimation st = setInterval AnimationTick 16 st"

definition setupMemoryLeaks :: "page \<Rightarrow> page" where
  "setupMemoryLeaks st = setInterval MemoryLeakTick 1000 (console_log ''Setting up memory leaks'' st)"

definition memoryLeakTick :: "page \<Rightarrow> page" where
  "memoryLeakTick st =
     (let handler = LeakHandler (next_object st);
          st1 = st\<lparr>next_object := Suc (next_object st)\<rparr>;
          st2 = addEventListener ''resize'' handler
                  (addEventListener ''scroll'' handler
                    (addEventListener ''click'' handler st1));
          elements = querySelectorAll_star st2;
          closure = Closure elements;
          leaks = (case memoryLeaks st2 of None \<Rightarrow> [] | Some cs \<Rightarrow> cs)
      in st2\<lparr>memoryLeaks := Some (leaks @ [closure])\<rparr>)"

text \<open>The page after \<open>N\<close> ticks of the leak timer.\<close>

fun ticks :: "nat \<Rightarrow> page \<Rightarrow> page" where
  "ticks 0 st = st"
| "ticks (Suc N) st = memoryLeakTick (ticks N st)"

text \<open>
  The length of the accumulator, read as the script reads the global: an undefined
  \<^verbatim>\<open>window.memoryLeaks\<close> stands for the empty array.
\<close>

definition memoryLeaks_length :: "page \<Rightarrow> nat" where
  "memoryLeaks_length st = length (case memoryLeaks st of None \<Rightarrow> [] | Some cs \<Rightarrow> cs)"

subsection \<open>The regex and request runners (lines 93 to 138)\<close>

text \<open>
  The results of the regex tests are discarded; an error of the pathological test is
  caught and logged, and the email tests run after it either way. Each request is in a
  \<^verbatim>\<open>try\<close> of its own: a status or a failure is logged, and the routine goes on.
\<close>

definition inefficientRegex :: "outside \<Rightarrow> page \<Rightarrow> page" where
  "inefficientRegex env st =
     (let st1 = console_log ''Running inefficient regex operations'' st
      in case regex_error env of
           None \<Rightarrow> st1
         | Some message \<Rightarrow> console_log (''Regex timeout/error: '' @ message) st1)"

definition synchronousRequests :: "outside \<Rightarrow> page \<Rightarrow> page" where
  "synchronousRequests env st =
     (let st1 = console_log ''Making synchronous requests'' st;
          st2 = (case response1 env of
                   Status n \<Rightarrow>
                     console_log (''Synchronous request completed: '' @ string_of_nat n) st1
                 | Failed message \<Rightarrow>
                     console_log (''Synchronous request failed: '' @ message) st1)
      in case response2 env of
           Status n \<Rightarrow>
             console_log (''Second synchronous request completed: '' @ string_of_nat n) st2
         | Failed message \<Rightarrow>
             console_log (''Second synchronous request failed: '' @ message) st2)"

subsection \<open>The two computing routines, on the page\<close>

definition inefficientDataProcessing :: "outside \<Rightarrow> page \<Rightarrow> page" where
  "inefficientDataProcessing env st =
     (let st1 = console_log ''Starting inefficient data processing'' st;
          rnd = (\<lambda>k. math_random env (random_draws st1 + k));
          st2 = console_log (''Processed items: '' @ string_of_nat (length (result rnd)))
                  (st1\<lparr>random_draws := random_draws st1 + 10000 * 101\<rparr>)
      in console_log (''Comparisons made: '' @ string_of_nat (nat comparisons)) st2)"

definition heavyCalculations :: "page \<Rightarrow> page" where
  "heavyCalculations st =
     console_log (''Fibonacci results: '' @ string_of_nat (length fibResults))
       (console_log (''Found primes: '' @ string_of_nat (length primes))
         (console_log ''Starting heavy calculations on main thread'' st))"

subsection \<open>The startup orchestrator (lines 225 to 245)\<close>

datatype routine =
  InefficientDOMManipulation | BadAnimation | SetupMemoryLeaks | InefficientRegex
  | SynchronousRequests | InefficientDataProcessing | HeavyCalculations

text \<open>Calling a routine: its outcome is an uncaught exception or the page it leaves.\<close>

fun call :: "outside \<Rightarrow> routine \<Rightarrow> page \<Rightarrow> js_error + page" where
  "call env InefficientDOMManipulation st = inefficientDOMManipulation env st"
| "call env BadAnimation st = Inr (badAnimation st)"
| "call env SetupMemoryLeaks st = Inr (setupMemoryLeaks st)"
| "call env InefficientRegex st = Inr (inefficientRegex env st)"
| "call env SynchronousRequests st = Inr (synchronousRequests env st)"
| "call env InefficientDataProcessing st = Inr (inefficientDataProcessing env st)"
| "call env HeavyCalculations st = Inr (heavyCalculations st)"

text \<open>
  A sequence of call statements with no \<^verbatim>\<open>try\<close> around them: the calls run in order,
  and the first exception ends the sequence. The first component lists the routines that
  were invoked.
\<close>

fun call_in_order ::
  "(routine \<Rightarrow> page \<Rightarrow> js_error + page) \<Rightarrow> routine list \<Rightarrow> page \<Rightarrow> routine list \<times> (js_error + page)"
where
  "call_in_order f [] st = ([], Inr st)"
| "call_in_order f (r # rs) st =
     (case f r st of
        Inl e \<Rightarrow> ([r], Inl e)
      | Inr st' \<Rightarrow> (case call_in_order f rs st' of (invoked, res) \<Rightarrow> (r # invoked, res)))"

definition all_bad_practices :: "routine list" where
  "all_bad_practices =
     [InefficientDOMManipulation, BadAnimation, SetupMemoryLeaks, InefficientRegex,
      SynchronousRequests, InefficientDataProcessing, HeavyCalculations]"

definition start_all :: "outside \<Rightarrow> string \<Rightarrow> page \<Rightarrow> routine list \<times> (js_error + page)" where
  "start_all env greeting st = call_in_order (call env) all_bad_practices (console_log greeting st)"

text \<open>The listener registered while the document is loading, run on \<^verbatim>\<open>DOMContentLoaded\<close>.\<close>

definition on_DOMContentLoaded :: "outside \<Rightarrow> page \<Rightarrow> routine list \<times> (js_error + page)" where
  "on_DOMContentLoaded env st = start_all env ''DOM loaded, starting all bad practices'' st"

text \<open>
  The dispatch. While the document is loading, a new function object is registered as
  the listener and no routine is invoked; otherwise the routines start at once.
\<close>

definition orchestrator :: "outside \<Rightarrow> page \<Rightarrow> routine list \<times> (js_error + page)" where
  "orchestrator env st =
     (if readyState st = Loading
      then ([], Inr (addEventListener ''DOMContentLoaded'' (StartAllBadPractices (next_object st))
                       (st\<lparr>next_object := Suc (next_object st)\<rparr>)))
      else start_all env ''DOM already loaded, starting all bad practices'' st)"

subsection \<open>Reference notions and example inputs\<close>

text \<open>
  The mathematical notions the properties compare the code with: a prime is an integer
  above 1 whose only positive divisors are 1 and itself, and the Fibonacci numbers start
  with \<open>F 0 = 0\<close> and \<open>F 1 = 1\<close>.
\<close>

definition prime_number :: "int \<Rightarrow> bool" where
  "prime_number n = (1 < n \<and> (\<forall>d. 0 < d \<and> d dvd n \<longrightarrow> d = 1 \<or> d = n))"

fun standard_fibonacci :: "nat \<Rightarrow> int" where
  "standard_fibonacci 0 = 0"
| "standard_fibonacci (Suc 0) = 1"
| "standard_fibonacci (Suc (Suc n)) = standard_fibonacci (Suc n) + standard_fibonacci n"

text \<open>
  Two devices for counting the primes below 10000 by evaluation: trial division that stops
  at the square root, and a counting loop over an interval. They are proved equal to the
  script's primality routine before they are used.
\<close>

function no_divisor_to_root :: "int \<Rightarrow> int \<Rightarrow> bool" where
  "no_divisor_to_root n d =
     (if n < d * d \<or> d \<le> 0 then True
      else if n mod d = 0 then False
      else no_divisor_to_root n (d + 1))"
  by pat_completeness auto
termination
proof (relation "measure (\<lambda>(n, d). nat (n + 1 - d))")
  show "wf (measure (\<lambda>(n, d). nat (n + 1 - d)))" by simp
next
  fix n d :: int
  assume "\<not> (n < d * d \<or> d \<le> 0)"
  then have d: "1 \<le> d" and dd: "d * d \<le> n" by auto
  from d have "d * 1 \<le> d * d" by (intro mult_left_mono) auto
  with dd have "d \<le> n" by simp
  then show "((n, d + 1), (n, d)) \<in> measure (\<lambda>(n, d). nat (n + 1 - d))" by simp
qed

declare no_divisor_to_root.simps [simp del]

function count_between :: "int \<Rightarrow> int \<Rightarrow> int \<Rightarrow> int" where
  "count_between i m acc =
     (if i < m then count_between (i + 1) m (if no_divisor_to_root i 2 then acc + 1 else acc)
      else acc)"
  by pat_completeness auto
termination
  by (relation "measure (\<lambda>(i, m, acc). nat (m - i))") auto

declare count_between.simps [simp del]

text \<open>The mutations of \<open>m\<close> rounds of the DOM churn, the first new node being \<open>n\<close>.\<close>

definition churn :: "nat \<Rightarrow> nat \<Rightarrow> dom_mutation list" where
  "churn n m = concat (map (\<lambda>k. [Attached (n + k), Detached (n + k)]) [0..<m])"

text \<open>
  Example inputs: an outside world, a loaded page with two children in its body, the same
  page for a document without a body, and a clock that advances 5 ms per reading.
\<close>

definition example_outside :: outside where
  "example_outside =
     \<lparr>math_random = (\<lambda>k. 0), regex_error = None, response1 = Status 200,
      response2 = Failed ''Network error''\<rparr>"

definition example_page :: page where
  "example_page =
     \<lparr>readyState = Complete, body = Some [3, 4], outside_body = [0, 1, 2], next_object = 5,
      created = Map.empty, forced_layouts = 0, mutations = [], listeners = [],
      intervals = [], memoryLeaks = None, console = [], random_draws = 0\<rparr>"

definition page_without_body :: page where
  "page_without_body = example_page\<lparr>body := None, outside_body := [0]\<rparr>"

definition example_clock :: "nat \<Rightarrow> int" where
  "example_clock k = 1000 + 5 * int k"

section \<open>Properties\<close>

subsection \<open>The busy-wait timer\<close>

lemma sleep_loop_result:
  assumes "sleep_loop clock start ms k = Some r"
  shows "k \<le> r \<and> ms \<le> clock r - start"
proof (rule sleep_loop.raw_induct
    [where P = "\<lambda>c s m k r. k \<le> r \<and> m \<le> c r - s", OF _ assms])
  fix loop :: "(nat \<Rightarrow> int) \<Rightarrow> int \<Rightarrow> int \<Rightarrow> nat \<Rightarrow> nat option"
  fix c s m k r
  assume IH: "\<And>c s m k r. loop c s m k = Some r \<Longrightarrow> k \<le> r \<and> m \<le> c r - s"
    and eq: "(if c k - s < m then loop c s m (Suc k) else Some k) = Some r"
  show "k \<le> r \<and> m \<le> c r - s"
  proof (cases "c k - s < m")
    case True
    with eq have "loop c s m (Suc k) = Some r" by simp
    from IH [OF this] show ?thesis by simp
  next
    case False
    with eq show ?thesis by simp
  qed
qed

lemma sleep_loop_returns:
  "k \<le> j \<Longrightarrow> ms \<le> clock j - start \<Longrightarrow> \<exists>r. sleep_loop clock start ms k = Some r"
proof (induction "j - k" arbitrary: k)
  case 0
  then show ?case by (subst sleep_loop.simps) simp
next
  case (Suc d)
  show ?case
  proof (cases "clock k - start < ms")
    case True
    from Suc have "\<exists>r. sleep_loop clock start ms (Suc k) = Some r" by simp
    with True show ?thesis by (subst sleep_loop.simps) simp
  next
    case False
    then show ?thesis by (subst sleep_loop.simps) simp
  qed
qed

lemma sleep_returns:
  "1 \<le> j \<Longrightarrow> D \<le> clock j - clock 0 \<Longrightarrow> \<exists>r. sleep clock D = Some r"
  using sleep_loop_returns [of 1 j D clock "clock 0"] by (simp add: sleep_def)

text \<open>
  Claim C5. When \<^verbatim>\<open>sleep(D)\<close> returns, at least \<open>D\<close> milliseconds have elapsed since it
  was invoked, if the clock never runs backwards: the reading that ended the loop, and
  every reading after it, is at least \<open>D\<close> above the reading taken at the start.
\<close>

theorem sleep_elapsed:
  assumes "\<forall>i j. i \<le> j \<longrightarrow> clock i \<le> clock j"
    and "sleep clock D = Some r"
    and "r \<le> j"
  shows "D \<le> clock j - clock 0"
proof -
  from assms(2) have "D \<le> clock r - clock 0"
    using sleep_loop_result [of clock "clock 0" D 1 r] by (simp add: sleep_def)
  moreover from assms(1,3) have "clock r \<le> clock j" by simp
  ultimately show ?thesis by simp
qed

theorem sleep_elapsed_witness:
  "sleep example_clock 12 = Some 3 \<and> 12 \<le> example_clock 3 - example_clock 0
   \<and> 12 \<le> example_clock 4 - example_clock 0"
proof -
  have m: "\<forall>i j. i \<le> j \<longrightarrow> example_clock i \<le> example_clock j"
    by (simp add: example_clock_def)
  have s: "sleep example_clock 12 = Some 3"
    by (simp add: sleep_def sleep_loop.simps example_clock_def)
  from sleep_elapsed [OF m s, of 3] sleep_elapsed [OF m s, of 4] s show ?thesis by simp
qed

subsection \<open>The leak accumulator\<close>

lemma memoryLeaks_addEventListener [simp]:
  "memoryLeaks (addEventListener ty l st) = memoryLeaks st"
  by (simp add: addEventListener_def)

lemma memoryLeakTick_length:
  "memoryLeaks_length (memoryLeakTick st) = Suc (memoryLeaks_length st)"
  by (simp add: memoryLeakTick_def memoryLeaks_length_def Let_def split: option.splits)

lemma ticks_length: "memoryLeaks_length (ticks N st) = memoryLeaks_length st + N"
  by (induction N) (simp_all add: memoryLeakTick_length)

text \<open>
  Claim C4. Starting from a page where \<^verbatim>\<open>window.memoryLeaks\<close> is still undefined, the
  accumulator holds exactly \<open>N\<close> closures after \<open>N\<close> ticks of the leak timer, and no tick
  makes it shorter.
\<close>

theorem memoryLeaks_grow:
  "memoryLeaks st = None \<Longrightarrow>
     memoryLeaks_length (ticks N st) = N \<and>
     memoryLeaks_length (ticks N st) \<le> memoryLeaks_length (ticks (Suc N) st)"
  by (simp add: ticks_length memoryLeakTick_length) (simp add: memoryLeaks_length_def)

theorem memoryLeaks_grow_witness:
  "memoryLeaks example_page = None \<and> memoryLeaks_length (ticks 3 example_page) = 3
   \<and> memoryLeaks_length (ticks 3 example_page) \<le> memoryLeaks_length (ticks 4 example_page)"
proof -
  have h: "memoryLeaks example_page = None" by (simp add: example_page_def)
  from memoryLeaks_grow [OF h, of 3] h show ?thesis by simp
qed

lemma ticks_2_example:
  "memoryLeaks (ticks 2 example_page) = Some [Closure [0, 1, 2, 3, 4], Closure [0, 1, 2, 3, 4]]"
  by (simp add: eval_nat_numeral memoryLeakTick_def example_page_def Let_def
      addEventListener_def querySelectorAll_star_def)

subsection \<open>The DOM churn generator\<close>

lemma churn_Suc: "churn n (Suc m) = [Attached n, Detached n] @ churn (Suc n) m"
  by (simp add: churn_def map_upt_Suc del: upt_Suc)

lemma dom_round_fresh:
  assumes "body st = Some cs" and "\<forall>c\<in>set cs. c < next_object st"
  shows "\<exists>st'. dom_round env i st = Inr st' \<and> body st' = Some cs \<and>
           next_object st' = Suc (next_object st) \<and>
           mutations st' = mutations st @ [Attached (next_object st), Detached (next_object st)] \<and>
           forced_layouts st' = Suc (forced_layouts st) \<and>
           console st' = console st"
proof -
  from assms(2) have "next_object st \<notin> set cs" by auto
  with assms(1) show ?thesis
    by (simp add: dom_round_def createElement_def appendChild_def removeChild_def
        offsetHeight_def Let_def remove1_append)
qed

lemma dom_loop_fresh:
  "i \<le> 100 \<Longrightarrow> body st = Some cs \<Longrightarrow> \<forall>c\<in>set cs. c < next_object st \<Longrightarrow>
     \<exists>st'. dom_loop env i st = Inr st' \<and> body st' = Some cs \<and>
           next_object st' = next_object st + (100 - i) \<and>
           mutations st' = mutations st @ churn (next_object st) (100 - i) \<and>
           forced_layouts st' = forced_layouts st + (100 - i) \<and>
           console st' = console st"
proof (induction env i st rule: dom_loop.induct)
  case (1 env i st)
  show ?case
  proof (cases "i < 100")
    case False
    with 1 show ?thesis by (subst dom_loop.simps) (simp add: churn_def)
  next
    case True
    from dom_round_fresh [OF "1.prems"(2,3), of env i]
    obtain st1 where r: "dom_round env i st = Inr st1" and b: "body st1 = Some cs"
      and n: "next_object st1 = Suc (next_object st)"
      and m: "mutations st1 = mutations st @ [Attached (next_object st), Detached (next_object st)]"
      and f: "forced_layouts st1 = Suc (forced_layouts st)"
      and c: "console st1 = console st"
      by blast
    have fresh: "\<forall>c\<in>set cs. c < next_object st1"
      using "1.prems"(3) n by auto
    from True have "Suc i \<le> 100" by simp
    from "1.IH" [OF True r this b fresh]
    obtain st' where l: "dom_loop env (Suc i) st1 = Inr st'" and b': "body st' = Some cs"
      and n': "next_object st' = next_object st1 + (100 - Suc i)"
      and m': "mutations st' = mutations st1 @ churn (next_object st1) (100 - Suc i)"
      and f': "forced_layouts st' = forced_layouts st1 + (100 - Suc i)"
      and c': "console st' = console st1"
      by blast
    from True obtain j where j: "100 - i = Suc j" "100 - Suc i = j"
      by (cases "100 - i") auto
    have "dom_loop env i st = Inr st'"
      using True r l by (subst dom_loop.simps) simp
    moreover have "mutations st' = mutations st @ churn (next_object st) (100 - i)"
      using m' m n j by (simp add: churn_Suc)
    moreover have "next_object st' = next_object st + (100 - i)"
      using n' n True by arith
    moreover have "forced_layouts st' = forced_layouts st + (100 - i)"
      using f' f True by arith
    ultimately show ?thesis
      using b' c' c by simp
  qed
qed

text \<open>
  Claim C6. On a document with a body, whose nodes all have identities already given
  out, the DOM churn generator completes; it has attached and then removed exactly 100
  new elements, one after the other, and the children of the body are what they were
  before the call, so none of the 100 remains attached.
\<close>

theorem dom_churn_leaves_body:
  assumes "body st = Some cs" and "\<forall>c\<in>set cs. c < next_object st"
  shows "\<exists>st'. inefficientDOMManipulation env st = Inr st' \<and>
           mutations st' =
             mutations st @
             concat (map (\<lambda>k. [Attached (next_object st + k), Detached (next_object st + k)])
                       [0..<100]) \<and>
           body st' = Some cs \<and>
           set cs \<inter> {next_object st..<next_object st + 100} = {}"
proof -
  let ?st0 = "console_log ''Starting inefficient DOM manipulation'' st"
  have "body ?st0 = Some cs" and "\<forall>c\<in>set cs. c < next_object ?st0"
    using assms by (simp_all add: console_log_def)
  from dom_loop_fresh [OF _ this, of 0 env]
  obtain st1 where "dom_loop env 0 ?st0 = Inr st1" and "body st1 = Some cs"
    and "mutations st1 = mutations ?st0 @ churn (next_object ?st0) 100"
    by auto
  then have "inefficientDOMManipulation env st =
      Inr (console_log ''Finished inefficient DOM manipulation'' st1)"
    and "body (console_log ''Finished inefficient DOM manipulation'' st1) = Some cs"
    and "mutations (console_log ''Finished inefficient DOM manipulation'' st1) =
      mutations st @ churn (next_object st) 100"
    by (simp_all add: inefficientDOMManipulation_def console_log_def)
  moreover have "set cs \<inter> {next_object st..<next_object st + 100} = {}"
    using assms(2) by auto
  ultimately show ?thesis by (simp add: churn_def)
qed

theorem dom_churn_leaves_body_witness:
  "body example_page = Some [3, 4] \<and>
   (\<exists>st'. inefficientDOMManipulation example_outside example_page = Inr st' \<and>
      body st' = Some [3, 4] \<and> length (mutations st') = 200 \<and>
      take 4 (mutations st') = [Attached 5, Detached 5, Attached 6, Detached 6])"
proof -
  have b: "body example_page = Some [3, 4]"
    and f: "\<forall>c\<in>set [3, 4]. c < next_object example_page"
    and n: "next_object example_page = 5" "mutations example_page = []"
    by (simp_all add: example_page_def)
  from dom_churn_leaves_body [OF b f, of example_outside]
  obtain st' where "inefficientDOMManipulation example_outside example_page = Inr st'"
    and "body st' = Some [3, 4]"
    and m: "mutations st' =
      concat (map (\<lambda>k. [Attached (5 + k), Detached (5 + k)]) [0..<100])"
    using n by auto
  moreover from m have "length (mutations st') = 200"
    by (simp add: length_concat comp_def sum_list_triv)
  moreover have "[0..<100] = 0 # 1 # [2..<100]"
    by (simp add: upt_rec [of _ 100])
  with m have "take 4 (mutations st') = [Attached 5, Detached 5, Attached 6, Detached 6]"
    by simp
  ultimately show ?thesis using b by blast
qed

subsection \<open>The bulk record processor\<close>

lemma js_rem_2: "js_rem i 2 = 0 \<longleftrightarrow> even i"
  by (auto simp: js_rem_def sgn_if)

text \<open>
  Claim C3. For every list of records, the six materialized passes give the same
  sequence as the single composed pass that keeps the records with \<open>value > 0.1\<close>, an
  even \<open>id\<close> and \<open>2 * value > 0.5\<close>, and emits their uppercased names in order.
\<close>

theorem pipeline_is_composed_pass: "pipeline xs = composed_pass xs"
  by (induction xs)
     (auto simp: pipeline_def composed_pass_def pass1_def pass2_def pass3_def pass4_def
        pass5_def pass6_def js_rem_2)

lemma double_0_1_below_quarter: "double_0_1 < 1 / 4"
  by (simp add: double_0_1_def)

lemma MAX_VALUE_pos: "1 < MAX_VALUE"
proof -
  have "(1::real) \<le> 2 ^ 971" by simp
  moreover have "(2::real) \<le> 2 ^ 53 - 1" by simp
  ultimately have "2 * 1 \<le> (2 ^ 53 - 1) * (2::real) ^ 971"
    by (intro mult_mono) auto
  then show ?thesis by (simp add: MAX_VALUE_def)
qed

lemma doubled_above_half: "js_gt (times2 v) (Num 0.5) \<Longrightarrow> js_gt v (Num (1 / 4))"
  using MAX_VALUE_pos by (cases v) (auto split: if_splits)

lemma above_quarter: "js_gt v (Num (1 / 4)) \<Longrightarrow> js_gt v (Num double_0_1)"
  using double_0_1_below_quarter by (cases v) auto

text \<open>
  Claim C9. The first filter (\<open>value > 0.1\<close>) is redundant: for every list of records,
  the chain without it gives the same sequence, because a record that passes
  \<open>doubled > 0.5\<close> has a value above 0.25, which is above 0.1.
\<close>

theorem first_filter_redundant: "pipeline_without_first_filter xs = pipeline xs"
  using doubled_above_half above_quarter
  by (induction xs)
     (auto simp: pipeline_def pipeline_without_first_filter_def pass1_def pass2_def pass3_def
        pass4_def pass5_def pass6_def)

lemma comparisons_inner_eq: "j \<le> 1000 \<Longrightarrow> comparisons_inner i j c = c + (1000 - j)"
proof (induction i j c rule: comparisons_inner.induct)
  case (1 i j c)
  show ?case
  proof (cases "j < 1000")
    case True
    with 1 show ?thesis by (subst comparisons_inner.simps) simp
  next
    case False
    with 1 show ?thesis by (subst comparisons_inner.simps) simp
  qed
qed

lemma comparisons_outer_eq: "i \<le> 1000 \<Longrightarrow> comparisons_outer i c = c + (1000 - i) * 1000"
proof (induction i c rule: comparisons_outer.induct)
  case (1 i c)
  show ?case
  proof (cases "i < 1000")
    case True
    with 1 show ?thesis
      by (subst comparisons_outer.simps) (simp add: comparisons_inner_eq algebra_simps)
  next
    case False
    with 1 show ?thesis by (subst comparisons_outer.simps) simp
  qed
qed

lemma string_of_nat_million: "string_of_nat 1000000 = ''1000000''"
  by (simp add: string_of_nat.simps)

text \<open>
  Claim C7. The nested counting pass ends with the counter at exactly 1,000,000, whatever
  the random values of the synthesized records are, and that is the number the routine
  logs.
\<close>

theorem comparisons_million:
  "comparisons = 1000000 \<and>
   last (console (inefficientDataProcessing env st)) = ''Comparisons made: 1000000''"
proof -
  have c: "comparisons = 1000000"
    unfolding comparisons_def using comparisons_outer_eq [of 0 0] by simp
  show ?thesis
    by (simp add: c inefficientDataProcessing_def console_log_def Let_def string_of_nat_million)
qed

subsection \<open>The heavy calculations\<close>

lemma js_rem_zero_iff: "js_rem a b = 0 \<longleftrightarrow> b dvd a"
proof -
  have "\<bar>a\<bar> mod \<bar>b\<bar> = 0 \<longleftrightarrow> \<bar>b\<bar> dvd \<bar>a\<bar>"
    by (simp add: dvd_eq_mod_eq_0)
  then show ?thesis
    by (auto simp: js_rem_def sgn_if)
qed

lemma isPrime_loop_iff: "isPrime_loop n i \<longleftrightarrow> (\<forall>k. i \<le> k \<and> k < n \<longrightarrow> \<not> k dvd n)"
proof (induction n i rule: isPrime_loop.induct)
  case (1 n i)
  show ?case
  proof (cases "i < n")
    case False
    then show ?thesis by (subst isPrime_loop.simps) auto
  next
    case True
    show ?thesis
    proof (cases "i dvd n")
      case dv: True
      with True show ?thesis
        by (subst isPrime_loop.simps) (auto simp: js_rem_zero_iff)
    next
      case ndv: False
      have "isPrime_loop n i = isPrime_loop n (i + 1)"
        using True ndv by (subst isPrime_loop.simps) (simp add: js_rem_zero_iff)
      also have "\<dots> \<longleftrightarrow> (\<forall>k. i + 1 \<le> k \<and> k < n \<longrightarrow> \<not> k dvd n)"
        using 1 True ndv by (simp add: js_rem_zero_iff)
      also have "\<dots> \<longleftrightarrow> (\<forall>k. i \<le> k \<and> k < n \<longrightarrow> \<not> k dvd n)"
      proof
        assume h: "\<forall>k. i + 1 \<le> k \<and> k < n \<longrightarrow> \<not> k dvd n"
        show "\<forall>k. i \<le> k \<and> k < n \<longrightarrow> \<not> k dvd n"
        proof (intro allI impI)
          fix k assume k: "i \<le> k \<and> k < n"
          show "\<not> k dvd n"
          proof (cases "k = i")
            case True
            with ndv show ?thesis by simp
          next
            case False
            with k have "i + 1 \<le> k \<and> k < n" by simp
            with h show ?thesis by blast
          qed
        qed
      next
        assume "\<forall>k. i \<le> k \<and> k < n \<longrightarrow> \<not> k dvd n"
        then show "\<forall>k. i + 1 \<le> k \<and> k < n \<longrightarrow> \<not> k dvd n" by simp
      qed
      finally show ?thesis .
    qed
  qed
qed

lemma isPrime_iff: "isPrime n \<longleftrightarrow> 1 < n \<and> (\<forall>k. 2 \<le> k \<and> k < n \<longrightarrow> \<not> k dvd n)"
  by (auto simp: isPrime_def isPrime_loop_iff)

lemma isPrime_prime_number: "isPrime n = prime_number n"
proof (cases "1 < n")
  case False
  then show ?thesis by (simp add: isPrime_iff prime_number_def)
next
  case n: True
  show ?thesis
  proof
    assume p: "isPrime n"
    have "d = 1 \<or> d = n" if d: "0 < d \<and> d dvd n" for d
    proof (rule ccontr)
      assume "\<not> (d = 1 \<or> d = n)"
      moreover from d n have "d \<le> n" by (simp add: zdvd_imp_le)
      ultimately have "2 \<le> d \<and> d < n" using d by simp
      with p d show False by (simp add: isPrime_iff)
    qed
    with n show "prime_number n" by (simp add: prime_number_def)
  next
    assume p: "prime_number n"
    have "\<not> k dvd n" if k: "2 \<le> k \<and> k < n" for k
    proof
      assume kn: "k dvd n"
      from p have "0 < k \<and> k dvd n \<longrightarrow> k = 1 \<or> k = n"
        unfolding prime_number_def by blast
      with k kn show False by simp
    qed
    with n show "isPrime n" by (simp add: isPrime_iff)
  qed
qed

lemma square_mono: "(1::int) \<le> d \<Longrightarrow> d \<le> k \<Longrightarrow> d * d \<le> k * k"
  by (intro mult_mono) auto

lemma no_divisor_to_root_iff:
  "1 \<le> d \<Longrightarrow> no_divisor_to_root n d \<longleftrightarrow> (\<forall>k. d \<le> k \<and> k * k \<le> n \<longrightarrow> \<not> k dvd n)"
proof (induction n d rule: no_divisor_to_root.induct)
  case (1 n d)
  show ?case
  proof (cases "n < d * d")
    case True
    have "\<not> (d \<le> k \<and> k * k \<le> n)" for k
      using True square_mono [OF \<open>1 \<le> d\<close>, of k] by auto
    with True show ?thesis by (subst no_divisor_to_root.simps) auto
  next
    case False
    show ?thesis
    proof (cases "d dvd n")
      case dv: True
      with False \<open>1 \<le> d\<close> show ?thesis
        by (subst no_divisor_to_root.simps) (auto simp: dvd_eq_mod_eq_0)
    next
      case ndv: False
      have "no_divisor_to_root n d = no_divisor_to_root n (d + 1)"
        using False ndv \<open>1 \<le> d\<close>
        by (subst no_divisor_to_root.simps) (simp add: dvd_eq_mod_eq_0)
      also have "\<dots> \<longleftrightarrow> (\<forall>k. d + 1 \<le> k \<and> k * k \<le> n \<longrightarrow> \<not> k dvd n)"
        using 1 False ndv by (simp add: dvd_eq_mod_eq_0)
      also have "\<dots> \<longleftrightarrow> (\<forall>k. d \<le> k \<and> k * k \<le> n \<longrightarrow> \<not> k dvd n)"
      proof
        assume h: "\<forall>k. d + 1 \<le> k \<and> k * k \<le> n \<longrightarrow> \<not> k dvd n"
        show "\<forall>k. d \<le> k \<and> k * k \<le> n \<longrightarrow> \<not> k dvd n"
        proof (intro allI impI)
          fix k assume k: "d \<le> k \<and> k * k \<le> n"
          show "\<not> k dvd n"
          proof (cases "k = d")
            case True
            with ndv show ?thesis by simp
          next
            case False
            with k have "d + 1 \<le> k \<and> k * k \<le> n" by simp
            with h show ?thesis by blast
          qed
        qed
      next
        assume "\<forall>k. d \<le> k \<and> k * k \<le> n \<longrightarrow> \<not> k dvd n"
        then show "\<forall>k. d + 1 \<le> k \<and> k * k \<le> n \<longrightarrow> \<not> k dvd n" by simp
      qed
      finally show ?thesis .
    qed
  qed
qed

lemma small_factor:
  assumes n: "1 < (n::int)" and d: "2 \<le> d" "d < n" "d dvd n"
  shows "\<exists>k. 2 \<le> k \<and> k * k \<le> n \<and> k dvd n"
proof -
  from d obtain e where e: "n = d * e" by (auto simp: dvd_def)
  with n d have "0 < e" by (simp add: zero_less_mult_iff)
  moreover from e d have "e \<noteq> 1" by auto
  ultimately have e2: "2 \<le> e" by simp
  show ?thesis
  proof (cases "d \<le> e")
    case True
    with d have "d * d \<le> d * e" by (intro mult_left_mono) auto
    with e d show ?thesis by auto
  next
    case False
    with e2 have "e * e \<le> d * e" by (intro mult_right_mono) auto
    with e e2 show ?thesis by auto
  qed
qed

lemma isPrime_fast: "2 \<le> n \<Longrightarrow> isPrime n = no_divisor_to_root n 2"
proof -
  assume n: "2 \<le> n"
  have "(\<forall>k. 2 \<le> k \<and> k < n \<longrightarrow> \<not> k dvd n) \<longleftrightarrow> (\<forall>k. 2 \<le> k \<and> k * k \<le> n \<longrightarrow> \<not> k dvd n)"
  proof
    assume h: "\<forall>k. 2 \<le> k \<and> k < n \<longrightarrow> \<not> k dvd n"
    show "\<forall>k. 2 \<le> k \<and> k * k \<le> n \<longrightarrow> \<not> k dvd n"
    proof (intro allI impI)
      fix k assume k: "2 \<le> k \<and> k * k \<le> n"
      then have k2: "2 \<le> k" and kk: "k * k \<le> n" by auto
      from k2 have "k * 2 \<le> k * k" by (intro mult_left_mono) auto
      with k2 kk have "k < n" by linarith
      with h k2 show "\<not> k dvd n" by blast
    qed
  next
    assume h: "\<forall>k. 2 \<le> k \<and> k * k \<le> n \<longrightarrow> \<not> k dvd n"
    show "\<forall>k. 2 \<le> k \<and> k < n \<longrightarrow> \<not> k dvd n"
    proof (intro allI impI notI)
      fix k assume "2 \<le> k \<and> k < n" and "k dvd n"
      with n small_factor [of n k] have "\<exists>j. 2 \<le> j \<and> j * j \<le> n \<and> j dvd n" by simp
      with h show False by blast
    qed
  qed
  with n show ?thesis
    by (simp add: isPrime_iff no_divisor_to_root_iff)
qed

lemma primes_loop_eq: "i \<le> 10000 \<Longrightarrow> primes_loop i ps = ps @ filter isPrime [i..9999]"
proof (induction i ps rule: primes_loop.induct)
  case (1 i ps)
  show ?case
  proof (cases "i < 10000")
    case True
    then have "[i..9999] = i # [i + 1..9999]" by (simp add: upto_rec1)
    with 1 True show ?thesis by (subst primes_loop.simps) simp
  next
    case False
    with 1 show ?thesis by (subst primes_loop.simps) simp
  qed
qed

lemma primes_eq: "primes = filter isPrime [2..9999]"
  unfolding primes_def by (subst primes_loop_eq) (simp_all del: upto_rec_numeral)

lemma count_between_eq:
  "count_between i m acc = acc + int (length (filter (\<lambda>n. no_divisor_to_root n 2) [i..m - 1]))"
proof (induction i m acc rule: count_between.induct)
  case (1 i m acc)
  show ?case
  proof (cases "i < m")
    case True
    then have "[i..m - 1] = i # [i + 1..m - 1]" by (simp add: upto_rec1)
    with 1 True show ?thesis by (subst count_between.simps) simp
  next
    case False
    with 1 show ?thesis by (subst count_between.simps) simp
  qed
qed

lemma count_isPrime:
  "2 \<le> i \<Longrightarrow> int (length (filter isPrime [i..m - 1])) = count_between i m 0"
proof -
  assume i: "2 \<le> i"
  have "filter isPrime [i..m - 1] = filter (\<lambda>n. no_divisor_to_root n 2) [i..m - 1]"
    by (rule filter_cong) (use i in \<open>auto simp: isPrime_fast\<close>)
  then show ?thesis by (simp add: count_between_eq)
qed

lemma count_chunk1: "count_between 2 2500 0 = 367"
  by code_simp

lemma count_chunk2: "count_between 2500 5000 0 = 302"
  by code_simp

lemma count_chunk3: "count_between 5000 7500 0 = 281"
  by code_simp

lemma count_chunk4: "count_between 7500 10000 0 = 279"
  by code_simp

lemma length_primes: "length primes = 1229"
proof -
  have "[2..9999] = [2..2500 - 1] @ [2500..9999]"
    by (rule upto_split1) simp_all
  moreover have "[2500..9999] = [2500..5000 - 1] @ [5000..9999]"
    by (rule upto_split1) simp_all
  moreover have "[5000..9999] = [5000..7500 - 1] @ [7500..9999]"
    by (rule upto_split1) simp_all
  moreover have "[7500..9999] = [7500..10000 - 1]"
    by (simp del: upto_rec_numeral)
  ultimately have
    "[2..9999] = [2..2500 - 1] @ [2500..5000 - 1] @ [5000..7500 - 1] @ [7500..10000 - 1]"
    by (simp only:)
  then have "int (length primes) =
      int (length (filter isPrime [2..2500 - 1])) +
      int (length (filter isPrime [2500..5000 - 1])) +
      int (length (filter isPrime [5000..7500 - 1])) +
      int (length (filter isPrime [7500..10000 - 1]))"
    by (simp only: primes_eq filter_append length_append of_nat_add)
  also have "\<dots> = 367 + 302 + 281 + 279"
    by (simp only: count_isPrime count_chunk1 count_chunk2 count_chunk3 count_chunk4)
  finally show ?thesis by simp
qed

text \<open>
  Claim C2. For every integer \<open>n\<close>, \<^verbatim>\<open>isPrime(n)\<close> is true if and only if \<open>n\<close> is prime;
  it is true for 2 and false for 9; and the list collected over the integers from 2 to
  9999 is exactly the primes of that range, 1229 of them.
\<close>

theorem isPrime_correct:
  "isPrime n = prime_number n \<and> isPrime 2 \<and> \<not> isPrime 9 \<and>
   primes = filter prime_number [2..9999] \<and> length primes = 1229"
proof -
  have "isPrime 2" and "\<not> isPrime 9"
    by (simp_all add: isPrime_def isPrime_loop.simps js_rem_def)
  moreover have "primes = filter prime_number [2..9999]"
    unfolding primes_eq by (rule filter_cong [OF refl]) (rule isPrime_prime_number)
  ultimately show ?thesis
    using isPrime_prime_number [of n] length_primes by blast
qed

theorem isPrime_correct_witness:
  "isPrime 7 \<and> prime_number 7 \<and> \<not> isPrime 8 \<and> \<not> prime_number 8
   \<and> \<not> isPrime (- 3) \<and> \<not> prime_number (- 3)"
proof -
  have "isPrime 7" "\<not> isPrime 8" "\<not> isPrime (- 3)"
    by (simp_all add: isPrime_def isPrime_loop.simps js_rem_def)
  with isPrime_correct [of 7] isPrime_correct [of 8] isPrime_correct [of "- 3"]
  show ?thesis by blast
qed

lemma fibonacci_base: "n \<le> 1 \<Longrightarrow> fibonacci n = n"
  by (subst fibonacci.simps) simp

lemma fibonacci_step: "1 < n \<Longrightarrow> fibonacci n = fibonacci (n - 1) + fibonacci (n - 2)"
  by (subst fibonacci.simps) simp

lemma fibonacci_of_nat: "fibonacci (int k) = standard_fibonacci k"
proof (induction k rule: standard_fibonacci.induct)
  case 1
  show ?case by (simp add: fibonacci_base)
next
  case 2
  show ?case by (simp add: fibonacci_base)
next
  case (3 n)
  have "fibonacci (int (Suc (Suc n))) = fibonacci (int (Suc n)) + fibonacci (int n)"
    using fibonacci_step [of "int (Suc (Suc n))"] by simp
  with 3 show ?case by simp
qed

lemma standard_fibonacci_10: "standard_fibonacci 10 = 55"
  by (simp add: eval_nat_numeral)

text \<open>
  Claim C8. \<^verbatim>\<open>fibonacci(10)\<close> is 55, and for every \<open>n\<close> from 0 to 34 the function gives
  the standard Fibonacci number \<open>F n\<close>.
\<close>

theorem fibonacci_is_standard:
  "fibonacci 10 = 55 \<and> (0 \<le> n \<and> n < 35 \<longrightarrow> fibonacci n = standard_fibonacci (nat n))"
proof
  show "fibonacci 10 = 55"
    using fibonacci_of_nat [of 10] standard_fibonacci_10 by simp
next
  show "0 \<le> n \<and> n < 35 \<longrightarrow> fibonacci n = standard_fibonacci (nat n)"
    using fibonacci_of_nat [of "nat n"] by auto
qed

theorem fibonacci_is_standard_witness:
  "(0::int) \<le> 12 \<and> (12::int) < 35 \<and> fibonacci 12 = 144"
  using fibonacci_is_standard [of 12] by (simp add: eval_nat_numeral)

lemma fibonacci_calls_base: "n \<le> 1 \<Longrightarrow> fibonacci_calls n = 1"
  by (subst fibonacci_calls.simps) simp

text \<open>
  Claim C10. For every integer \<open>n \<le> 1\<close>, negative ones included, \<^verbatim>\<open>fibonacci(n)\<close> is \<open>n\<close>
  itself, and the call returns without recursing: it is the only activation.
\<close>

theorem fibonacci_small: "n \<le> 1 \<Longrightarrow> fibonacci n = n \<and> fibonacci_calls n = 1"
  by (simp add: fibonacci_base fibonacci_calls_base)

theorem fibonacci_small_witness:
  "fibonacci (- 5) = - 5 \<and> fibonacci_calls (- 5) = 1 \<and> fibonacci 0 = 0 \<and> fibonacci_calls 0 = 1"
  using fibonacci_small [of "- 5"] fibonacci_small [of 0] by simp

subsection \<open>The startup orchestrator\<close>

lemma call_in_order_run:
  "call_in_order f rs st = (invoked, res) \<Longrightarrow>
     \<exists>ss. ss \<noteq> [] \<and> hd ss = st \<and>
       (\<forall>i. Suc i < length ss \<longrightarrow> f (rs ! i) (ss ! i) = Inr (ss ! Suc i)) \<and>
       (length ss = Suc (length rs) \<and> invoked = rs \<and> res = Inr (last ss) \<or>
        (\<exists>e. length ss \<le> length rs \<and> f (rs ! (length ss - 1)) (last ss) = Inl e \<and>
           invoked = take (length ss) rs \<and> res = Inl e))"
proof (induction rs arbitrary: st invoked res)
  case Nil
  then have "invoked = []" "res = Inr st" by auto
  then show ?case by (intro exI [of _ "[st]"]) simp
next
  case (Cons r rs)
  show ?case
  proof (cases "f r st")
    case (Inl e)
    with Cons.prems have "invoked = [r]" "res = Inl e" by auto
    with Inl show ?thesis by (intro exI [of _ "[st]"]) simp
  next
    case (Inr st1)
    obtain inv1 res1 where c: "call_in_order f rs st1 = (inv1, res1)"
      by (cases "call_in_order f rs st1")
    with Inr Cons.prems have i: "invoked = r # inv1" and r: "res = res1" by auto
    from Cons.IH [OF c] obtain ss where ne: "ss \<noteq> []" and h: "hd ss = st1"
      and chain: "\<forall>i. Suc i < length ss \<longrightarrow> f (rs ! i) (ss ! i) = Inr (ss ! Suc i)"
      and out: "length ss = Suc (length rs) \<and> inv1 = rs \<and> res1 = Inr (last ss) \<or>
        (\<exists>e. length ss \<le> length rs \<and> f (rs ! (length ss - 1)) (last ss) = Inl e \<and>
           inv1 = take (length ss) rs \<and> res1 = Inl e)"
      by blast
    from ne h have s0: "ss ! 0 = st1" by (simp add: hd_conv_nth)
    have chain': "\<forall>i. Suc i < length (st # ss) \<longrightarrow>
        f ((r # rs) ! i) ((st # ss) ! i) = Inr ((st # ss) ! Suc i)"
    proof (intro allI impI)
      fix i assume l: "Suc i < length (st # ss)"
      show "f ((r # rs) ! i) ((st # ss) ! i) = Inr ((st # ss) ! Suc i)"
      proof (cases i)
        case 0
        with Inr s0 show ?thesis by simp
      next
        case (Suc j)
        with l chain show ?thesis by simp
      qed
    qed
    from ne obtain n where n: "length ss = Suc n" by (cases ss) auto
    have out': "length (st # ss) = Suc (length (r # rs)) \<and> invoked = r # rs \<and>
          res = Inr (last (st # ss)) \<or>
        (\<exists>e. length (st # ss) \<le> length (r # rs) \<and>
           f ((r # rs) ! (length (st # ss) - 1)) (last (st # ss)) = Inl e \<and>
           invoked = take (length (st # ss)) (r # rs) \<and> res = Inl e)"
      using out i r ne n by auto
    show ?thesis
      by (rule exI [of _ "st # ss"]) (use chain' out' in simp)
  qed
qed

lemma call_in_order_of_run:
  assumes "ss \<noteq> []" and "hd ss = st"
    and "\<forall>i. Suc i < length ss \<longrightarrow> f (rs ! i) (ss ! i) = Inr (ss ! Suc i)"
    and "length ss = Suc (length rs) \<and> invoked = rs \<and> res = Inr (last ss) \<or>
        (\<exists>e. length ss \<le> length rs \<and> f (rs ! (length ss - 1)) (last ss) = Inl e \<and>
           invoked = take (length ss) rs \<and> res = Inl e)"
  shows "call_in_order f rs st = (invoked, res)"
  using assms
proof (induction rs arbitrary: st ss invoked res)
  case Nil
  from Nil.prems(1) obtain s0 tl where ss: "ss = s0 # tl" by (cases ss) auto
  with Nil.prems(1,2,4) show ?case by auto
next
  case (Cons r rs)
  from Cons.prems(1) obtain s0 tl where ss: "ss = s0 # tl" by (cases ss) auto
  with Cons.prems(2) have s0: "s0 = st" by simp
  show ?case
  proof (cases tl)
    case Nil
    with ss s0 Cons.prems(4) show ?thesis by auto
  next
    case (Cons s1 tl')
    with ss s0 Cons.prems(3) have first: "f r st = Inr s1"
      by (auto dest: spec [of _ 0])
    have ne: "tl \<noteq> []" and h: "hd tl = s1" using Cons by simp_all
    have chain: "\<forall>i. Suc i < length tl \<longrightarrow> f (rs ! i) (tl ! i) = Inr (tl ! Suc i)"
    proof (intro allI impI)
      fix i assume "Suc i < length tl"
      with Cons.prems(3) ss show "f (rs ! i) (tl ! i) = Inr (tl ! Suc i)"
        by (auto dest: spec [of _ "Suc i"])
    qed
    obtain inv1 where inv1: "invoked = r # inv1"
      and out: "length tl = Suc (length rs) \<and> inv1 = rs \<and> res = Inr (last tl) \<or>
        (\<exists>e. length tl \<le> length rs \<and> f (rs ! (length tl - 1)) (last tl) = Inl e \<and>
           inv1 = take (length tl) rs \<and> res = Inl e)"
      using Cons.prems(4) ss Cons by auto
    from Cons.IH [OF ne h chain out] first inv1 show ?thesis by simp
  qed
qed

text \<open>
  Claim C1, as the code has it. With the document already loaded, the orchestrator
  invokes the routines in the fixed order, each at most once, every routine on the page
  the routines before it have left. Below, \<open>ss\<close> lists the pages of the run: the page
  after the greeting is logged, then the page each returning routine leaves. The
  orchestrator's outcome is exactly one of two. Either every one of the seven routines
  returns on the page it is called on: then all seven have been invoked and the
  orchestrator returns the last page. Or a routine raises an uncaught exception on the
  page it is called on, the routines before it having returned: then that exception
  leaves the orchestrator, the routines up to and including the raising one have been
  invoked, and the routines that follow it are not invoked.
\<close>

theorem orchestrator_invocations:
  assumes "readyState st \<noteq> Loading"
  shows "orchestrator env st = (invoked, res) \<longleftrightarrow>
         (\<exists>ss. ss \<noteq> [] \<and>
           hd ss = console_log ''DOM already loaded, starting all bad practices'' st \<and>
           (\<forall>i. Suc i < length ss \<longrightarrow>
              call env (all_bad_practices ! i) (ss ! i) = Inr (ss ! Suc i)) \<and>
           (length ss = 8 \<and> invoked = all_bad_practices \<and> res = Inr (last ss) \<or>
            (\<exists>e. length ss \<le> 7 \<and>
               call env (all_bad_practices ! (length ss - 1)) (last ss) = Inl e \<and>
               invoked = take (length ss) all_bad_practices \<and> res = Inl e)))"
proof -
  let ?st0 = "console_log ''DOM already loaded, starting all bad practices'' st"
  have o: "orchestrator env st = call_in_order (call env) all_bad_practices ?st0"
    using assms by (simp add: orchestrator_def start_all_def)
  have l: "length all_bad_practices = 7"
    by (simp add: all_bad_practices_def)
  show ?thesis
  proof
    assume "orchestrator env st = (invoked, res)"
    with o have "call_in_order (call env) all_bad_practices ?st0 = (invoked, res)" by simp
    from call_in_order_run [OF this] l show "\<exists>ss. ss \<noteq> [] \<and> hd ss = ?st0 \<and>
           (\<forall>i. Suc i < length ss \<longrightarrow>
              call env (all_bad_practices ! i) (ss ! i) = Inr (ss ! Suc i)) \<and>
           (length ss = 8 \<and> invoked = all_bad_practices \<and> res = Inr (last ss) \<or>
            (\<exists>e. length ss \<le> 7 \<and>
               call env (all_bad_practices ! (length ss - 1)) (last ss) = Inl e \<and>
               invoked = take (length ss) all_bad_practices \<and> res = Inl e))"
      by simp
  next
    assume "\<exists>ss. ss \<noteq> [] \<and> hd ss = ?st0 \<and>
           (\<forall>i. Suc i < length ss \<longrightarrow>
              call env (all_bad_practices ! i) (ss ! i) = Inr (ss ! Suc i)) \<and>
           (length ss = 8 \<and> invoked = all_bad_practices \<and> res = Inr (last ss) \<or>
            (\<exists>e. length ss \<le> 7 \<and>
               call env (all_bad_practices ! (length ss - 1)) (last ss) = Inl e \<and>
               invoked = take (length ss) all_bad_practices \<and> res = Inl e))"
    then obtain ss where "ss \<noteq> []" "hd ss = ?st0"
      "\<forall>i. Suc i < length ss \<longrightarrow> call env (all_bad_practices ! i) (ss ! i) = Inr (ss ! Suc i)"
      "length ss = Suc (length all_bad_practices) \<and> invoked = all_bad_practices \<and>
         res = Inr (last ss) \<or>
       (\<exists>e. length ss \<le> length all_bad_practices \<and>
          call env (all_bad_practices ! (length ss - 1)) (last ss) = Inl e \<and>
          invoked = take (length ss) all_bad_practices \<and> res = Inl e)"
      using l by auto
    from call_in_order_of_run [OF this] o show "orchestrator env st = (invoked, res)" by simp
  qed
qed

lemma first_call_without_body:
  "call example_outside InefficientDOMManipulation
     (console_log ''DOM already loaded, starting all bad practices'' page_without_body) =
   Inl TypeError"
  by (simp add: page_without_body_def example_page_def inefficientDOMManipulation_def
      dom_loop.simps dom_round_def createElement_def appendChild_def console_log_def Let_def)

theorem orchestrator_invocations_witness:
  "readyState page_without_body \<noteq> Loading \<and>
   call example_outside InefficientDOMManipulation
     (console_log ''DOM already loaded, starting all bad practices'' page_without_body) =
   Inl TypeError \<and>
   orchestrator example_outside page_without_body = ([InefficientDOMManipulation], Inl TypeError)"
proof -
  let ?st0 = "console_log ''DOM already loaded, starting all bad practices'' page_without_body"
  have r: "readyState page_without_body \<noteq> Loading"
    by (simp add: page_without_body_def example_page_def)
  have c: "call example_outside (all_bad_practices ! 0) ?st0 = Inl TypeError"
    using first_call_without_body by (simp add: all_bad_practices_def)
  have t: "take 1 all_bad_practices = [InefficientDOMManipulation]"
    by (simp add: all_bad_practices_def)
  have "\<exists>ss. ss \<noteq> [] \<and> hd ss = ?st0 \<and>
           (\<forall>i. Suc i < length ss \<longrightarrow>
              call example_outside (all_bad_practices ! i) (ss ! i) = Inr (ss ! Suc i)) \<and>
           (length ss = 8 \<and> [InefficientDOMManipulation] = all_bad_practices \<and>
              Inl TypeError = Inr (last ss) \<or>
            (\<exists>e. length ss \<le> 7 \<and>
               call example_outside (all_bad_practices ! (length ss - 1)) (last ss) = Inl e \<and>
               [InefficientDOMManipulation] = take (length ss) all_bad_practices \<and>
               Inl TypeError = Inl e))"
    by (rule exI [of _ "[?st0]"]) (use c t in simp)
  with orchestrator_invocations [OF r, of example_outside "[InefficientDOMManipulation]" "Inl TypeError"]
  have "orchestrator example_outside page_without_body =
      ([InefficientDOMManipulation], Inl TypeError)"
    by blast
  with r first_call_without_body show ?thesis by blast
qed

text \<open>
  The claim as the specification words it (an exception raised by one routine does not
  keep the following routines from being invoked) fails on a loaded document that has no
  body: the DOM churn raises a TypeError at its first \<^verbatim>\<open>appendChild\<close>, and none of the
  six routines after it is invoked.
\<close>

theorem orchestrator_counterexample:
  "readyState page_without_body = Complete \<and>
   orchestrator example_outside page_without_body = ([InefficientDOMManipulation], Inl TypeError)"
  by (simp add: orchestrator_def start_all_def all_bad_practices_def page_without_body_def
      example_page_def inefficientDOMManipulation_def dom_loop.simps dom_round_def
      createElement_def appendChild_def console_log_def Let_def)

text \<open>On a document with a body, no routine raises and all seven are invoked.\<close>

lemma all_seven_invoked:
  assumes "readyState st \<noteq> Loading" and "body st = Some cs"
    and "\<forall>c\<in>set cs. c < next_object st"
  shows "\<exists>st'. orchestrator env st = (all_bad_practices, Inr st')"
proof -
  let ?st0 = "console_log ''DOM already loaded, starting all bad practices'' st"
  let ?st1 = "console_log ''Starting inefficient DOM manipulation'' ?st0"
  have "body ?st1 = Some cs" and "\<forall>c\<in>set cs. c < next_object ?st1"
    using assms by (simp_all add: console_log_def)
  from dom_loop_fresh [OF _ this, of 0 env]
  obtain st2 where "dom_loop env 0 ?st1 = Inr st2" by auto
  then have "\<exists>st3. call env InefficientDOMManipulation ?st0 = Inr st3"
    by (simp add: inefficientDOMManipulation_def)
  then show ?thesis
    using assms(1) by (auto simp: orchestrator_def start_all_def all_bad_practices_def)
qed

end
